theory Spec2Isabelle
  imports Complex_Main
begin

section \<open>The Gaussian Thompson-sampling bandit of \<^verbatim>\<open>examples/simple_lts.py\<close>\<close>

text \<open>
  The class \<^verbatim>\<open>LTS\<close> keeps one belief \<open>(mean, standard deviation)\<close> per arm, the
  observation noise, and the index of the arm pulled last. Its three methods are
  embedded as functions on an explicit state record.

  Numbers: the methods compute in Python's \<^verbatim>\<open>float\<close>, an IEEE double. The state record
  is polymorphic in the number type, and \<^verbatim>\<open>update\<close> is embedded twice. \<open>update_with\<close>
  takes the arithmetic as a parameter (the four operations the method calls), so what is
  proved of it holds whatever the operations do, rounding, underflow, overflow and NaN
  included. \<open>update\<close> is its instance with exact real arithmetic; it is used for which
  slot is written and for the figures of the script's scenario, and the last section,
  which is marked so, is about exact arithmetic only. Sampled values are compared as the
  real numbers they are. The arm count \<open>N\<close> is a Python \<^verbatim>\<open>int\<close>, modelled by \<^typ>\<open>int\<close>.

  Exceptions: a method returns \<open>error + result\<close>; \<open>Inl e\<close> is the exception the
  Python raises at that point, and the state is then the one before the call.
\<close>

subsection \<open>State and errors\<close>

type_synonym belief = "real \<times> real"

record 'n lts =
  arms :: "('n \<times> 'n) list"
  observation_noise :: 'n
  last_arm_pulled :: "nat option"

datatype error = TypeError | IndexError | ZeroDivisionError | ValueError

subsection \<open>\<^verbatim>\<open>LTS.__init__\<close>\<close>

text \<open>
  \<^verbatim>\<open>self._arms = [(init_mu, init_sd) for _ in range(0, N)]\<close>: \<^verbatim>\<open>range(0, N)\<close> is empty
  for \<open>N \<le> 0\<close>, so the list has \<open>nat N\<close> entries. The constructor has no check and no
  \<^verbatim>\<open>raise\<close>.
\<close>

definition LTS_init :: "int \<Rightarrow> real \<Rightarrow> real \<Rightarrow> real \<Rightarrow> error + real lts" where
  "LTS_init N init_mu init_sd noise =
     Inr \<lparr>arms = replicate (nat N) (init_mu, init_sd),
          observation_noise = noise,
          last_arm_pulled = None\<rparr>"

text \<open>
  The bandit the script builds: \<^verbatim>\<open>LTS(len(arms), init_mean_for_bandits, init_sd_for_bandits,
  observation_noise)\<close> with three arms, \<open>3.5\<close>, \<open>3.0\<close> and \<open>0.1\<close>.
\<close>

definition script_bandit :: "real lts" where
  "script_bandit =
     \<lparr>arms = [(3.5, 3), (3.5, 3), (3.5, 3)],
      observation_noise = 0.1,
      last_arm_pulled = None\<rparr>"

subsection \<open>\<^verbatim>\<open>LTS.select\<close>\<close>

text \<open>
  Python's builtin \<^verbatim>\<open>max(iterable, key=f)\<close>: one pass over the items, \<open>f\<close> called once
  on each item in order, the running best replaced only when the new key is strictly
  greater; an empty iterable leaves no best item (the builtin then raises
  \<^verbatim>\<open>ValueError\<close>). The key function here draws from the global random generator, so
  it is a function of a generator state \<open>'g\<close> that returns the value and the next state.
\<close>

fun max_key ::
  "('a \<Rightarrow> 'g \<Rightarrow> real \<times> 'g) \<Rightarrow> 'a list \<Rightarrow> ('a \<times> real) option \<Rightarrow> 'g \<Rightarrow> ('a \<times> real) option \<times> 'g"
where
  "max_key key [] best g = (best, g)"
| "max_key key (item # items) best g =
     (case key item g of
        (val, g') \<Rightarrow>
          (case best of
             None \<Rightarrow> max_key key items (Some (item, val)) g'
           | Some (maxitem, maxval) \<Rightarrow>
               if val > maxval then max_key key items (Some (item, val)) g'
               else max_key key items best g'))"

text \<open>
  \<^verbatim>\<open>max(enumerate(self._arms), key=lambda x: random.gauss(*x[1]))[0]\<close>. The sampler
  \<^verbatim>\<open>random.gauss(mu, sigma)\<close> is a parameter \<open>gauss mu sigma g\<close>. The index found is
  stored in \<^verbatim>\<open>_last_arm_pulled\<close> and returned.
\<close>

definition select ::
  "(real \<Rightarrow> real \<Rightarrow> 'g \<Rightarrow> real \<times> 'g) \<Rightarrow> real lts \<Rightarrow> 'g \<Rightarrow> error + (nat \<times> real lts \<times> 'g)"
where
  "select gauss self g =
     (case max_key (\<lambda>x. gauss (fst (snd x)) (snd (snd x))) (enumerate 0 (arms self)) None g of
        (None, g') \<Rightarrow> Inl ValueError
      | (Some (item, val), g') \<Rightarrow>
          Inr (fst item, self\<lparr>last_arm_pulled := Some (fst item)\<rparr>, g'))"

subsection \<open>\<^verbatim>\<open>LTS.update\<close>\<close>

text \<open>
  The arithmetic \<^verbatim>\<open>update\<close> uses: \<^verbatim>\<open>*\<close> and \<^verbatim>\<open>+\<close>, which return a float for any two
  floats, \<^verbatim>\<open>/\<close>, which raises \<^verbatim>\<open>ZeroDivisionError\<close> on a zero divisor, and
  \<^verbatim>\<open>math.sqrt\<close>, which raises \<^verbatim>\<open>ValueError\<close> on a negative argument.
\<close>

record 'n arith =
  fmul :: "'n \<Rightarrow> 'n \<Rightarrow> 'n"
  fadd :: "'n \<Rightarrow> 'n \<Rightarrow> 'n"
  fdiv :: "'n \<Rightarrow> 'n \<Rightarrow> error + 'n"
  fsqrt :: "'n \<Rightarrow> error + 'n"

text \<open>
  The method, line by line, over any arithmetic. \<^verbatim>\<open>self._arms[None]\<close> raises
  \<^verbatim>\<open>TypeError\<close>, an index past the end \<^verbatim>\<open>IndexError\<close>; the two divisions
  (\<^verbatim>\<open>mu /= ...\<close>, then \<^verbatim>\<open>var /= ...\<close>) and the square root raise what the arithmetic
  raises. The only assignment to the state is the last statement.
\<close>

definition update_with :: "'n arith \<Rightarrow> 'n lts \<Rightarrow> 'n \<Rightarrow> error + 'n lts" where
  "update_with A self reward =
     (case last_arm_pulled self of
        None \<Rightarrow> Inl TypeError
      | Some i \<Rightarrow>
          if length (arms self) \<le> i then Inl IndexError
          else
            let arm = arms self ! i;
                arm_mean = fst arm;
                arm_variance = fmul A (snd arm) (snd arm);
                ob_variance = fmul A (observation_noise self) (observation_noise self);
                mu = fadd A (fmul A arm_variance reward) (fmul A ob_variance arm_mean)
            in case fdiv A mu (fadd A arm_variance ob_variance) of
                 Inl e \<Rightarrow> Inl e
               | Inr mu \<Rightarrow>
                   let var = fmul A arm_variance ob_variance
                   in case fdiv A var (fadd A arm_variance ob_variance) of
                        Inl e \<Rightarrow> Inl e
                      | Inr var \<Rightarrow>
                          (case fsqrt A var of
                             Inl e \<Rightarrow> Inl e
                           | Inr sd \<Rightarrow> Inr (self\<lparr>arms := (arms self)[i := (mu, sd)]\<rparr>)))"

text \<open>Exact real arithmetic.\<close>

definition exact :: "real arith" where
  "exact =
     \<lparr>fmul = (\<lambda>x y. x * y),
      fadd = (\<lambda>x y. x + y),
      fdiv = (\<lambda>x y. if y = 0 then Inl ZeroDivisionError else Inr (x / y)),
      fsqrt = (\<lambda>x. if x < 0 then Inl ValueError else Inr (sqrt x))\<rparr>"

text \<open>
  The method over exact real arithmetic, written out: the same statements, with the zero
  test of the division and the sign test of the square root in place.
\<close>

definition update :: "real lts \<Rightarrow> real \<Rightarrow> error + real lts" where
  "update self reward =
     (case last_arm_pulled self of
        None \<Rightarrow> Inl TypeError
      | Some i \<Rightarrow>
          if length (arms self) \<le> i then Inl IndexError
          else
            let arm = arms self ! i;
                arm_mean = fst arm;
                arm_variance = snd arm * snd arm;
                ob_variance = observation_noise self * observation_noise self;
                mu = arm_variance * reward + ob_variance * arm_mean
            in if arm_variance + ob_variance = 0 then Inl ZeroDivisionError
               else
                 let mu = mu / (arm_variance + ob_variance);
                     var = arm_variance * ob_variance;
                     var = var / (arm_variance + ob_variance)
                 in if var < 0 then Inl ValueError
                    else Inr (self\<lparr>arms := (arms self)[i := (mu, sqrt var)]\<rparr>))"

subsection \<open>Drivers used to state the properties\<close>

text \<open>
  The values the sampler returns during one call of \<^verbatim>\<open>select\<close>, in arm order: the draw
  for arm \<open>i\<close> is made in the generator state left by the draws for the arms before it.
\<close>

fun sampled :: "(real \<Rightarrow> real \<Rightarrow> 'g \<Rightarrow> real \<times> 'g) \<Rightarrow> belief list \<Rightarrow> 'g \<Rightarrow> real list" where
  "sampled gauss [] g = []"
| "sampled gauss (arm # rest) g =
     (case gauss (fst arm) (snd arm) g of (x, g') \<Rightarrow> x # sampled gauss rest g')"

text \<open>
  A sampler for concrete runs: it replays a list of standard normal draws \<open>z\<close>, each
  scaled as \<open>mu + z * sigma\<close>, which is how \<^verbatim>\<open>random.gauss\<close> forms its result. Once the
  list is used up every draw is \<open>z = 0\<close>.
\<close>

fun replay :: "real \<Rightarrow> real \<Rightarrow> real list \<Rightarrow> real \<times> real list" where
  "replay mu sigma [] = (mu, [])"
| "replay mu sigma (z # zs) = (mu + z * sigma, zs)"

text \<open>
  A caller's sequence of method calls. An exception ends the run; the result is the
  state and generator reached, and the exception if there was one.
\<close>

datatype call = Select | Update real

fun run ::
  "(real \<Rightarrow> real \<Rightarrow> 'g \<Rightarrow> real \<times> 'g) \<Rightarrow> call list \<Rightarrow> real lts \<Rightarrow> 'g \<Rightarrow> real lts \<times> 'g \<times> error option"
where
  "run gauss [] s g = (s, g, None)"
| "run gauss (Select # cs) s g =
     (case select gauss s g of
        Inl e \<Rightarrow> (s, g, Some e)
      | Inr (i, s', g') \<Rightarrow> run gauss cs s' g')"
| "run gauss (Update reward # cs) s g =
     (case update s reward of
        Inl e \<Rightarrow> (s, g, Some e)
      | Inr s' \<Rightarrow> run gauss cs s' g)"

text \<open>\<open>n\<close> calls of \<^verbatim>\<open>update\<close> in a row with the same reward.\<close>

fun updates :: "nat \<Rightarrow> real \<Rightarrow> real lts \<Rightarrow> error + real lts" where
  "updates 0 reward s = Inr s"
| "updates (Suc n) reward s =
     (case update s reward of Inl e \<Rightarrow> Inl e | Inr s' \<Rightarrow> updates n reward s')"

text \<open>The invariant of the beliefs: the noise and every arm's standard deviation are positive.\<close>

definition sd_positive :: "real lts \<Rightarrow> bool" where
  "sd_positive s \<longleftrightarrow> 0 < observation_noise s \<and> list_all (\<lambda>b. 0 < snd b) (arms s)"

section \<open>Construction\<close>

lemma LTS_init_eq:
  "LTS_init N m sd noise = Inr s \<longleftrightarrow>
     s = \<lparr>arms = replicate (nat N) (m, sd), observation_noise = noise, last_arm_pulled = None\<rparr>"
  by (auto simp: LTS_init_def)

lemma LTS_init_script: "LTS_init 3 3.5 3 0.1 = Inr script_bandit"
  by (simp add: LTS_init_def script_bandit_def numeral_3_eq_3)

text \<open>
  Claim C7 says that construction fails with \<open>InvalidArgument\<close> whenever \<open>N < 1\<close>,
  \<open>init_sd \<le> 0\<close> or \<open>observation_noise \<le> 0\<close>. The constructor checks nothing: with
  \<open>N = 0\<close>, with \<open>init_sd = 0\<close> and with \<open>observation_noise = -1\<close> it returns a bandit.
\<close>

theorem LTS_init_accepts_invalid_arguments:
  "LTS_init 0 3.5 3 0.1 =
     Inr \<lparr>arms = [], observation_noise = 0.1, last_arm_pulled = None\<rparr> \<and>
   LTS_init 1 3.5 0 0.1 =
     Inr \<lparr>arms = [(3.5, 0)], observation_noise = 0.1, last_arm_pulled = None\<rparr> \<and>
   LTS_init 1 3.5 3 (- 1) =
     Inr \<lparr>arms = [(3.5, 3)], observation_noise = - 1, last_arm_pulled = None\<rparr>"
  by (simp add: LTS_init_def)

text \<open>
  Claim C7, amended: construction never fails. For every \<open>N\<close>, \<open>init_mean\<close>,
  \<open>init_sd\<close> and \<open>observation_noise\<close> it returns a bandit with \<open>max N 0\<close> arms, each
  with belief \<open>(init_mean, init_sd)\<close>, the noise as given and no arm selected.
\<close>

theorem LTS_init_always_succeeds:
  "\<exists>s. LTS_init N init_mean init_sd noise = Inr s \<and>
     arms s = replicate (nat N) (init_mean, init_sd) \<and>
     int (length (arms s)) = max N 0 \<and>
     observation_noise s = noise \<and>
     last_arm_pulled s = None"
  by (simp add: LTS_init_def)

section \<open>What one call of \<^verbatim>\<open>update\<close> computes\<close>

subsection \<open>Over any arithmetic\<close>

lemma update_with_Inr_D:
  assumes "update_with A s r = Inr s'"
  shows "\<exists>i mean sd new_mean new_var new_sd.
           last_arm_pulled s = Some i \<and> i < length (arms s) \<and> arms s ! i = (mean, sd) \<and>
           fdiv A (fadd A (fmul A (fmul A sd sd) r)
                     (fmul A (fmul A (observation_noise s) (observation_noise s)) mean))
                  (fadd A (fmul A sd sd) (fmul A (observation_noise s) (observation_noise s)))
             = Inr new_mean \<and>
           fdiv A (fmul A (fmul A sd sd) (fmul A (observation_noise s) (observation_noise s)))
                  (fadd A (fmul A sd sd) (fmul A (observation_noise s) (observation_noise s)))
             = Inr new_var \<and>
           fsqrt A new_var = Inr new_sd \<and>
           s' = s\<lparr>arms := (arms s)[i := (new_mean, new_sd)]\<rparr>"
proof -
  from assms obtain i where i: "last_arm_pulled s = Some i"
    by (cases "last_arm_pulled s") (auto simp: update_with_def)
  from assms i have len: "i < length (arms s)"
    by (auto simp: update_with_def split: if_splits)
  obtain mean sd where a: "arms s ! i = (mean, sd)" by (cases "arms s ! i")
  from assms i len a show ?thesis
    by (auto simp: update_with_def Let_def split: sum.splits)
qed

lemma update_with_frame:
  assumes "update_with A s r = Inr s'"
  shows "\<exists>i b. last_arm_pulled s = Some i \<and> i < length (arms s) \<and>
           s' = s\<lparr>arms := (arms s)[i := b]\<rparr>"
  using update_with_Inr_D[OF assms] by blast

lemma update_with_raises:
  assumes "last_arm_pulled s = Some i" and "i < length (arms s)"
    and "arms s ! i = (mean, sd)" and "observation_noise s = noise"
    and "fdiv A (fadd A (fmul A (fmul A sd sd) r) (fmul A (fmul A noise noise) mean))
                (fadd A (fmul A sd sd) (fmul A noise noise)) = Inl e"
  shows "update_with A s r = Inl e"
  using assms by (simp add: update_with_def Let_def)

lemma update_with_None: "last_arm_pulled s = None \<Longrightarrow> update_with A s r = Inl TypeError"
  by (simp add: update_with_def)



subsection \<open>Over exact real arithmetic\<close>

lemma update_with_exact: "update_with exact s r = update s r"
  by (simp add: update_with_def update_def exact_def Let_def split: option.splits)

lemma update_Some:
  assumes "last_arm_pulled s = Some i" and "i < length (arms s)"
    and "arms s ! i = (m, sd)" and "sd \<noteq> 0 \<or> observation_noise s \<noteq> 0"
  shows "update s r =
     Inr (s\<lparr>arms := (arms s)[i :=
       ((sd\<^sup>2 * r + (observation_noise s)\<^sup>2 * m) / (sd\<^sup>2 + (observation_noise s)\<^sup>2),
        sqrt ((sd\<^sup>2 * (observation_noise s)\<^sup>2) / (sd\<^sup>2 + (observation_noise s)\<^sup>2)))]\<rparr>)"
proof -
  have nz: "sd * sd + observation_noise s * observation_noise s \<noteq> 0"
    using assms(4) by simp
  have nn: "\<not> sd * sd * (observation_noise s * observation_noise s)
              / (sd * sd + observation_noise s * observation_noise s) < 0"
    by (simp add: not_less)
  show ?thesis
    using assms(1-3) nz nn by (simp add: update_def Let_def power2_eq_square)
qed

lemma update_Inr_D:
  assumes "update s r = Inr s'"
  shows "\<exists>i m sd. last_arm_pulled s = Some i \<and> i < length (arms s) \<and> arms s ! i = (m, sd) \<and>
           (sd \<noteq> 0 \<or> observation_noise s \<noteq> 0) \<and>
           s' = s\<lparr>arms := (arms s)[i :=
             ((sd\<^sup>2 * r + (observation_noise s)\<^sup>2 * m) / (sd\<^sup>2 + (observation_noise s)\<^sup>2),
              sqrt ((sd\<^sup>2 * (observation_noise s)\<^sup>2) / (sd\<^sup>2 + (observation_noise s)\<^sup>2)))]\<rparr>"
proof -
  from assms obtain i where i: "last_arm_pulled s = Some i"
    by (cases "last_arm_pulled s") (auto simp: update_def)
  from assms i have len: "i < length (arms s)"
    by (auto simp: update_def split: if_splits)
  obtain m sd where a: "arms s ! i = (m, sd)" by (cases "arms s ! i")
  from assms i len a have nz: "sd \<noteq> 0 \<or> observation_noise s \<noteq> 0"
    by (auto simp: update_def Let_def split: if_splits)
  from update_Some[OF i len a nz, of r] assms show ?thesis
    using i len a nz by auto
qed

lemma update_None: "last_arm_pulled s = None \<Longrightarrow> update s r = Inl TypeError"
  by (simp add: update_def)

lemma update_zero_division:
  assumes "last_arm_pulled s = Some i" and "i < length (arms s)"
    and "snd (arms s ! i) = 0" and "observation_noise s = 0"
  shows "update s r = Inl ZeroDivisionError"
  using assms by (simp add: update_def)

lemma update_before_select: "LTS_init N m sd noise = Inr s \<Longrightarrow> update s r = Inl TypeError"
  by (auto simp: LTS_init_eq update_def)

lemma post_sd_less:
  fixes sd n :: real
  assumes "0 < sd" and "0 < n"
  shows "sqrt ((sd\<^sup>2 * n\<^sup>2) / (sd\<^sup>2 + n\<^sup>2)) < sd"
proof -
  have d: "0 < sd\<^sup>2 + n\<^sup>2" using assms by (simp add: pos_add_strict)
  have "sd\<^sup>2 * n\<^sup>2 < sd\<^sup>2 * (sd\<^sup>2 + n\<^sup>2)"
    using assms by (simp add: distrib_left)
  then have "(sd\<^sup>2 * n\<^sup>2) / (sd\<^sup>2 + n\<^sup>2) < sd\<^sup>2"
    using d by (simp add: pos_divide_less_eq)
  then show ?thesis
    using assms(1) by (intro real_less_lsqrt) simp_all
qed



section \<open>What one call of \<^verbatim>\<open>select\<close> computes\<close>

lemma sampled_length: "length (sampled gauss as g) = length as"
  by (induction as arbitrary: g) (auto split: prod.splits)

lemma max_key_enumerate:
  "max_key (\<lambda>x. gauss (fst (snd x)) (snd (snd x))) (enumerate n as) (Some ((k, b), v)) g = (res, g') \<Longrightarrow>
   \<exists>i b' v'. res = Some ((i, b'), v') \<and>
     ((i = k \<and> v' = v \<and> (\<forall>y\<in>set (sampled gauss as g). y \<le> v)) \<or>
      (n \<le> i \<and> i < n + length as \<and> v' = sampled gauss as g ! (i - n) \<and> v < v' \<and>
        (\<forall>y\<in>set (take (i - n) (sampled gauss as g)). y < v') \<and>
        (\<forall>y\<in>set (sampled gauss as g). y \<le> v')))"
proof (induction as arbitrary: n k b v g)
  case Nil
  then show ?case by auto
next
  case (Cons a as)
  obtain x g1 where gx: "gauss (fst a) (snd a) g = (x, g1)"
    by (cases "gauss (fst a) (snd a) g")
  define xs where "xs = sampled gauss as g1"
  have s: "sampled gauss (a # as) g = x # xs"
    by (simp add: gx xs_def)
  show ?case
  proof (cases "v < x")
    case True
    with Cons.prems gx
    have "max_key (\<lambda>x. gauss (fst (snd x)) (snd (snd x))) (enumerate (Suc n) as)
            (Some ((n, a), x)) g1 = (res, g')"
      by simp
    from Cons.IH[OF this] obtain i b' v' where r: "res = Some ((i, b'), v')"
      and d: "(i = n \<and> v' = x \<and> (\<forall>y\<in>set xs. y \<le> x)) \<or>
        (Suc n \<le> i \<and> i < Suc n + length as \<and> v' = xs ! (i - Suc n) \<and> x < v' \<and>
          (\<forall>y\<in>set (take (i - Suc n) xs). y < v') \<and> (\<forall>y\<in>set xs. y \<le> v'))"
      unfolding xs_def by blast
    from d show ?thesis
    proof
      assume "i = n \<and> v' = x \<and> (\<forall>y\<in>set xs. y \<le> x)"
      with r True show ?thesis unfolding s by simp
    next
      assume h: "Suc n \<le> i \<and> i < Suc n + length as \<and> v' = xs ! (i - Suc n) \<and> x < v' \<and>
          (\<forall>y\<in>set (take (i - Suc n) xs). y < v') \<and> (\<forall>y\<in>set xs. y \<le> v')"
      then obtain d where e: "i = Suc (n + d)"
        using less_iff_Suc_add [of n i] by auto
      from h r True show ?thesis unfolding s e by auto
    qed
  next
    case False
    with Cons.prems gx
    have "max_key (\<lambda>x. gauss (fst (snd x)) (snd (snd x))) (enumerate (Suc n) as)
            (Some ((k, b), v)) g1 = (res, g')"
      by simp
    from Cons.IH[OF this] obtain i b' v' where r: "res = Some ((i, b'), v')"
      and d: "(i = k \<and> v' = v \<and> (\<forall>y\<in>set xs. y \<le> v)) \<or>
        (Suc n \<le> i \<and> i < Suc n + length as \<and> v' = xs ! (i - Suc n) \<and> v < v' \<and>
          (\<forall>y\<in>set (take (i - Suc n) xs). y < v') \<and> (\<forall>y\<in>set xs. y \<le> v'))"
      unfolding xs_def by blast
    from d show ?thesis
    proof
      assume "i = k \<and> v' = v \<and> (\<forall>y\<in>set xs. y \<le> v)"
      with r False show ?thesis unfolding s by simp
    next
      assume h: "Suc n \<le> i \<and> i < Suc n + length as \<and> v' = xs ! (i - Suc n) \<and> v < v' \<and>
          (\<forall>y\<in>set (take (i - Suc n) xs). y < v') \<and> (\<forall>y\<in>set xs. y \<le> v')"
      then obtain d where e: "i = Suc (n + d)"
        using less_iff_Suc_add [of n i] by auto
      from h r False show ?thesis unfolding s e by auto
    qed
  qed
qed

lemma select_spec:
  assumes "arms s \<noteq> []"
  shows "\<exists>i g'. select gauss s g = Inr (i, s\<lparr>last_arm_pulled := Some i\<rparr>, g') \<and>
           i < length (arms s) \<and>
           (\<forall>y\<in>set (sampled gauss (arms s) g). y \<le> sampled gauss (arms s) g ! i) \<and>
           (\<forall>y\<in>set (take i (sampled gauss (arms s) g)). y < sampled gauss (arms s) g ! i)"
proof -
  from assms obtain a as where as: "arms s = a # as" by (cases "arms s") auto
  obtain x g1 where gx: "gauss (fst a) (snd a) g = (x, g1)"
    by (cases "gauss (fst a) (snd a) g")
  define xs where "xs = sampled gauss as g1"
  have sm: "sampled gauss (arms s) g = x # xs"
    by (simp add: as gx xs_def)
  obtain res g' where m: "max_key (\<lambda>x. gauss (fst (snd x)) (snd (snd x))) (enumerate (Suc 0) as)
            (Some ((0, a), x)) g1 = (res, g')"
    by (cases "max_key (\<lambda>x. gauss (fst (snd x)) (snd (snd x))) (enumerate (Suc 0) as)
            (Some ((0, a), x)) g1")
  from max_key_enumerate[OF m] obtain i b' v' where r: "res = Some ((i, b'), v')"
      and d: "(i = 0 \<and> v' = x \<and> (\<forall>y\<in>set xs. y \<le> x)) \<or>
        (Suc 0 \<le> i \<and> i < Suc 0 + length as \<and> v' = xs ! (i - Suc 0) \<and> x < v' \<and>
          (\<forall>y\<in>set (take (i - Suc 0) xs). y < v') \<and> (\<forall>y\<in>set xs. y \<le> v'))"
    unfolding xs_def by blast
  have sel: "select gauss s g = Inr (i, s\<lparr>last_arm_pulled := Some i\<rparr>, g')"
    by (simp add: select_def as gx m r)
  from d show ?thesis
  proof
    assume "i = 0 \<and> v' = x \<and> (\<forall>y\<in>set xs. y \<le> x)"
    with sel show ?thesis unfolding sm by (simp add: as)
  next
    assume h: "Suc 0 \<le> i \<and> i < Suc 0 + length as \<and> v' = xs ! (i - Suc 0) \<and> x < v' \<and>
          (\<forall>y\<in>set (take (i - Suc 0) xs). y < v') \<and> (\<forall>y\<in>set xs. y \<le> v')"
    then obtain i' where e: "i = Suc i'" by (cases i) auto
    from h sel show ?thesis unfolding sm e by (auto simp: as)
  qed
qed

text \<open>
  Claim C2: for a non-empty list \<open>xs\<close> of per-arm sampled values, \<^verbatim>\<open>select()\<close> returns the
  index of the maximum of \<open>xs\<close>; among several arms with that same maximum it returns the
  lowest index (every earlier value is strictly smaller); in particular, when the sampler
  returns one value \<open>c\<close> for all arms, it returns index 0.
\<close>

theorem select_argmax_lowest_index:
  assumes "xs = sampled gauss (arms s) g" and "xs \<noteq> []"
  shows "\<exists>i s' g'. select gauss s g = Inr (i, s', g') \<and> i < length xs \<and>
           xs ! i = Max (set xs) \<and>
           (\<forall>j<i. xs ! j < xs ! i) \<and>
           ((\<forall>j<length xs. xs ! j = c) \<longrightarrow> i = 0)"
proof -
  from assms have ne: "arms s \<noteq> []" by auto
  from select_spec[OF ne, of gauss g] obtain i g' where
    sel: "select gauss s g = Inr (i, s\<lparr>last_arm_pulled := Some i\<rparr>, g')" and
    i: "i < length (arms s)" and
    le: "\<forall>y\<in>set xs. y \<le> xs ! i" and
    lt: "\<forall>y\<in>set (take i xs). y < xs ! i"
    unfolding assms(1) by blast
  have len: "i < length xs" using i by (simp add: assms(1) sampled_length)
  then have mem: "xs ! i \<in> set xs" by simp
  have mx: "xs ! i = Max (set xs)"
    using le mem by (intro Max_eqI [symmetric]) auto
  have low: "\<forall>j<i. xs ! j < xs ! i"
  proof (intro allI impI)
    fix j assume "j < i"
    with len have "xs ! j \<in> set (take i xs)"
      by (auto simp: in_set_conv_nth intro!: exI[of _ j])
    with lt show "xs ! j < xs ! i" by blast
  qed
  have tie: "(\<forall>j<length xs. xs ! j = c) \<longrightarrow> i = 0"
  proof (intro impI)
    assume all: "\<forall>j<length xs. xs ! j = c"
    show "i = 0"
    proof (rule ccontr)
      assume "i \<noteq> 0"
      then have "0 < i" by simp
      with low have "xs ! 0 < xs ! i" by blast
      moreover from assms(2) have "0 < length xs" by simp
      with all len have "xs ! 0 = c" "xs ! i = c" by blast+
      ultimately show False by simp
    qed
  qed
  from sel len mx low tie show ?thesis by blast
qed

theorem select_argmax_lowest_index_witness:
  "sampled replay (arms script_bandit) [0, 1, 1] = [3.5, 6.5, 6.5] \<and>
   select replay script_bandit [0, 1, 1] = Inr (1, script_bandit\<lparr>last_arm_pulled := Some 1\<rparr>, []) \<and>
   sampled replay (arms script_bandit) [0, 0, 0] = [3.5, 3.5, 3.5] \<and>
   select replay script_bandit [0, 0, 0] = Inr (0, script_bandit\<lparr>last_arm_pulled := Some 0\<rparr>, []) \<and>
   (\<exists>i s' g'. select replay script_bandit [0, 1, 1] = Inr (i, s', g') \<and> i < 3 \<and>
      [3.5, 6.5, 6.5] ! i = Max (set [3.5, 6.5, 6.5 :: real]))"
  using select_argmax_lowest_index [of "[3.5, 6.5, 6.5]" replay script_bandit "[0, 1, 1]" 0]
  by (simp add: script_bandit_def select_def)

text \<open>
  Claim C8: for a bandit with \<open>N \<ge> 1\<close> arms, \<^verbatim>\<open>select()\<close> returns an index in \<open>[0, N)\<close>
  and records that index as \<^verbatim>\<open>_last_arm_pulled\<close>; the beliefs and the noise are
  untouched.
\<close>

theorem select_valid_index:
  assumes "1 \<le> length (arms s)"
  shows "\<exists>i s' g'. select gauss s g = Inr (i, s', g') \<and> i < length (arms s) \<and>
           last_arm_pulled s' = Some i \<and> arms s' = arms s \<and>
           observation_noise s' = observation_noise s"
proof -
  from assms have "arms s \<noteq> []" by auto
  from select_spec[OF this, of gauss g] obtain i g' where
    "select gauss s g = Inr (i, s\<lparr>last_arm_pulled := Some i\<rparr>, g')" and "i < length (arms s)"
    by blast
  then show ?thesis by simp
qed

theorem select_valid_index_witness:
  "1 \<le> length (arms script_bandit) \<and>
   select replay script_bandit [0, 1, 1/2] =
     Inr (1, script_bandit\<lparr>last_arm_pulled := Some 1\<rparr>, []) \<and>
   (\<exists>i s' g'. select replay script_bandit [0, 1, 1/2] = Inr (i, s', g') \<and> i < 3 \<and>
      last_arm_pulled s' = Some i)"
  using select_valid_index [of script_bandit replay "[0, 1, 1/2]"]
  by (simp add: script_bandit_def select_def)

section \<open>The scenario of the script's parameters\<close>





section \<open>The update rule in exact arithmetic\<close>

text \<open>
  The lemmas of this section are about \<open>update\<close> over exact real arithmetic only. They
  say what the update rule does as mathematics; they are not statements about the doubles
  the program computes, where rounding can leave a standard deviation unchanged, underflow
  can make it zero and overflow can make it NaN.
\<close>

lemma post_sd_pos:
  fixes sd n :: real
  assumes "0 < sd" and "0 < n"
  shows "0 < sqrt ((sd\<^sup>2 * n\<^sup>2) / (sd\<^sup>2 + n\<^sup>2))"
  using assms by (simp add: pos_add_strict)

lemma weighted_mean_between:
  fixes a o' m r :: real
  assumes "0 < a" and "0 < o'" and "m < r"
  shows "m < (a * r + o' * m) / (a + o')" and "(a * r + o' * m) / (a + o') < r"
proof -
  have d: "0 < a + o'" using assms by simp
  have "a * m < a * r" using assms by simp
  then have "m * (a + o') < a * r + o' * m" by (simp add: algebra_simps)
  then show "m < (a * r + o' * m) / (a + o')"
    using d by (simp add: pos_less_divide_eq)
  have "o' * m < o' * r" using assms by simp
  then have "a * r + o' * m < r * (a + o')" by (simp add: algebra_simps)
  then show "(a * r + o' * m) / (a + o') < r"
    using d by (simp add: pos_divide_less_eq)
qed

lemma weighted_mean_between':
  fixes a o' m r :: real
  assumes "0 < a" and "0 < o'" and "r < m"
  shows "r < (a * r + o' * m) / (a + o')" and "(a * r + o' * m) / (a + o') < m"
proof -
  have d: "0 < a + o'" using assms by simp
  have "o' * r < o' * m" using assms by simp
  then have "r * (a + o') < a * r + o' * m" by (simp add: algebra_simps)
  then show "r < (a * r + o' * m) / (a + o')"
    using d by (simp add: pos_less_divide_eq)
  have "a * r < a * m" using assms by simp
  then have "a * r + o' * m < m * (a + o')" by (simp add: algebra_simps)
  then show "(a * r + o' * m) / (a + o') < m"
    using d by (simp add: pos_divide_less_eq)
qed

lemma weighted_mean_same:
  fixes a o' r :: real
  assumes "0 < a" and "0 < o'"
  shows "(a * r + o' * r) / (a + o') = r"
proof -
  have "0 < a + o'" using assms by simp
  then show ?thesis by (simp add: distrib_right [symmetric])
qed

lemma exact_sd_decreases:
  assumes "last_arm_pulled s = Some i" and "i < length (arms s)"
    and "0 < snd (arms s ! i)" and "0 < observation_noise s"
  shows "\<exists>s'. update s r = Inr s' \<and> snd (arms s' ! i) < snd (arms s ! i)"
proof -
  obtain m sd where a: "arms s ! i = (m, sd)" by (cases "arms s ! i")
  with assms(3) have sd: "0 < sd" by simp
  then have nz: "sd \<noteq> 0 \<or> observation_noise s \<noteq> 0" by simp
  show ?thesis
    using update_Some[OF assms(1,2) a nz, of r] assms(2) a post_sd_less[OF sd assms(4)]
    by simp
qed

lemma exact_mean_between:
  assumes "last_arm_pulled s = Some i" and "i < length (arms s)"
    and "arms s ! i = (mu0, sd0)" and "0 < sd0" and "0 < observation_noise s"
  shows "\<exists>s'. update s reward = Inr s' \<and>
           (mu0 < reward \<longrightarrow> mu0 < fst (arms s' ! i) \<and> fst (arms s' ! i) < reward) \<and>
           (reward < mu0 \<longrightarrow> reward < fst (arms s' ! i) \<and> fst (arms s' ! i) < mu0) \<and>
           (mu0 = reward \<longrightarrow> fst (arms s' ! i) = mu0 \<and> fst (arms s' ! i) = reward)"
proof -
  have nz: "sd0 \<noteq> 0 \<or> observation_noise s \<noteq> 0" using assms(4) by simp
  have a: "0 < sd0\<^sup>2" and o: "0 < (observation_noise s)\<^sup>2"
    using assms(4,5) by simp_all
  show ?thesis
    using update_Some[OF assms(1-3) nz, of reward] assms(2)
      weighted_mean_between[OF a o, of mu0 reward]
      weighted_mean_between'[OF a o, of reward mu0]
      weighted_mean_same[OF a o, of reward]
    by simp
qed

lemma sd_positive_update:
  assumes "sd_positive s" and "update s r = Inr s'"
  shows "sd_positive s'"
proof -
  from update_Inr_D[OF assms(2)] obtain i m sd where
    i: "i < length (arms s)" and a: "arms s ! i = (m, sd)" and
    s': "s' = s\<lparr>arms := (arms s)[i :=
             ((sd\<^sup>2 * r + (observation_noise s)\<^sup>2 * m) / (sd\<^sup>2 + (observation_noise s)\<^sup>2),
              sqrt ((sd\<^sup>2 * (observation_noise s)\<^sup>2) / (sd\<^sup>2 + (observation_noise s)\<^sup>2)))]\<rparr>"
    by blast
  from assms(1) have n: "0 < observation_noise s" and all: "\<forall>b\<in>set (arms s). 0 < snd b"
    by (simp_all add: sd_positive_def list_all_iff)
  from all i a have sd: "0 < sd" by (metis nth_mem snd_conv)
  have "\<forall>b\<in>set (arms s'). 0 < snd b"
  proof
    fix b assume "b \<in> set (arms s')"
    then have "b \<in> insert ((sd\<^sup>2 * r + (observation_noise s)\<^sup>2 * m) / (sd\<^sup>2 + (observation_noise s)\<^sup>2),
              sqrt ((sd\<^sup>2 * (observation_noise s)\<^sup>2) / (sd\<^sup>2 + (observation_noise s)\<^sup>2))) (set (arms s))"
      using set_update_subset_insert[of "arms s" i] unfolding s' by auto
    then show "0 < snd b"
      using all post_sd_pos[OF sd n] by auto
  qed
  then show ?thesis using n s' by (simp add: sd_positive_def list_all_iff)
qed

lemma select_Inr_D:
  assumes "select gauss s g = Inr (i, s', g')"
  shows "s' = s\<lparr>last_arm_pulled := Some i\<rparr>"
  using assms by (auto simp: select_def split: prod.splits option.splits)

lemma sd_positive_select:
  assumes "sd_positive s" and "select gauss s g = Inr (i, s', g')"
  shows "sd_positive s'"
  using assms(1) select_Inr_D[OF assms(2)] by (simp add: sd_positive_def)

lemma sd_positive_run:
  "sd_positive s \<Longrightarrow> run gauss cs s g = (s', g', e) \<Longrightarrow> sd_positive s'"
proof (induction cs arbitrary: s g)
  case Nil
  then show ?case by simp
next
  case (Cons c cs)
  show ?case
  proof (cases c)
    case Select
    show ?thesis
    proof (cases "select gauss s g")
      case (Inl err)
      with Cons.prems Select show ?thesis by simp
    next
      case (Inr r)
      obtain i s1 g1 where r: "r = (i, s1, g1)" by (cases r)
      with Inr have sel: "select gauss s g = Inr (i, s1, g1)" by simp
      from Cons.prems(2) Select sel have "run gauss cs s1 g1 = (s', g', e)" by simp
      with Cons.IH sd_positive_select[OF Cons.prems(1) sel] show ?thesis by blast
    qed
  next
    case (Update reward)
    show ?thesis
    proof (cases "update s reward")
      case (Inl err)
      with Cons.prems Update show ?thesis by simp
    next
      case (Inr s1)
      from Cons.prems(2) Update Inr have "run gauss cs s1 g = (s', g', e)" by simp
      with Cons.IH sd_positive_update[OF Cons.prems(1) Inr] show ?thesis by blast
    qed
  qed
qed

lemma exact_sd_positive:
  assumes "0 < init_sd" and "0 < noise"
    and "LTS_init N init_mean init_sd noise = Inr s0"
    and "run gauss calls s0 g = (s, g', e)"
  shows "(\<forall>b\<in>set (arms s0). 0 < snd b) \<and> (\<forall>b\<in>set (arms s). 0 < snd b)"
proof -
  from assms(1-3) have p0: "sd_positive s0"
    by (auto simp: LTS_init_eq sd_positive_def list_all_iff)
  from sd_positive_run[OF p0 assms(4)] have "sd_positive s" .
  with p0 show ?thesis by (simp add: sd_positive_def list_all_iff)
qed

text \<open>
  With \<open>a\<close> the prior variance and \<open>ob\<close> the observation variance, one update turns the
  belief \<open>(m, a)\<close> into \<open>((a * r + ob * m) / (a + ob), a * ob / (a + ob))\<close>. After \<open>n\<close>
  updates with the same reward the belief is
  \<open>((ob * m + n * a * r) / (ob + n * a), a * ob / (ob + n * a))\<close>.
\<close>

lemma post_closed_form_step:
  fixes a ob m r :: real and n :: nat
  assumes a: "0 < a" and ob: "0 < ob"
    and a1_def: "a1 = a * ob / (a + ob)" and m1_def: "m1 = (a * r + ob * m) / (a + ob)"
  shows "(ob * m1 + real n * a1 * r) / (ob + real n * a1) =
           (ob * m + real (Suc n) * a * r) / (ob + real (Suc n) * a)"
    and "a1 * ob / (ob + real n * a1) = a * ob / (ob + real (Suc n) * a)"
proof -
  have d: "a + ob \<noteq> 0" using a ob by simp
  have obnz: "ob \<noteq> 0" using ob by simp
  have m1D: "m1 * (a + ob) = a * r + ob * m" using d by (simp add: m1_def)
  have a1D: "a1 * (a + ob) = a * ob" using d by (simp add: a1_def)
  have "(ob * m1 + real n * a1 * r) * (a + ob) =
          ob * (m1 * (a + ob)) + real n * (a1 * (a + ob)) * r"
    by (simp add: algebra_simps)
  also have "\<dots> = ob * (ob * m + real (Suc n) * a * r)"
    unfolding m1D a1D by (simp add: algebra_simps)
  finally have f: "(ob * m1 + real n * a1 * r) * (a + ob) = ob * (ob * m + real (Suc n) * a * r)" .
  have "(ob + real n * a1) * (a + ob) = ob * (a + ob) + real n * (a1 * (a + ob))"
    by (simp add: algebra_simps)
  also have "\<dots> = ob * (ob + real (Suc n) * a)"
    unfolding a1D by (simp add: algebra_simps)
  finally have e: "(ob + real n * a1) * (a + ob) = ob * (ob + real (Suc n) * a)" .
  have "(ob * m1 + real n * a1 * r) / (ob + real n * a1) =
          ((ob * m1 + real n * a1 * r) * (a + ob)) / ((ob + real n * a1) * (a + ob))"
    using d by simp
  also have "\<dots> = (ob * (ob * m + real (Suc n) * a * r)) / (ob * (ob + real (Suc n) * a))"
    unfolding f e ..
  also have "\<dots> = (ob * m + real (Suc n) * a * r) / (ob + real (Suc n) * a)"
    using obnz by (rule mult_divide_mult_cancel_left)
  finally show "(ob * m1 + real n * a1 * r) / (ob + real n * a1) =
           (ob * m + real (Suc n) * a * r) / (ob + real (Suc n) * a)" .
  have "a1 * ob / (ob + real n * a1) = ((a1 * ob) * (a + ob)) / ((ob + real n * a1) * (a + ob))"
    using d by simp
  also have "(a1 * ob) * (a + ob) = ob * (a * ob)"
  proof -
    have "(a1 * ob) * (a + ob) = ob * (a1 * (a + ob))" by (simp add: algebra_simps)
    then show ?thesis unfolding a1D .
  qed
  also have "(ob * (a * ob)) / ((ob + real n * a1) * (a + ob)) = a * ob / (ob + real (Suc n) * a)"
    unfolding e using obnz by (rule mult_divide_mult_cancel_left)
  finally show "a1 * ob / (ob + real n * a1) = a * ob / (ob + real (Suc n) * a)" .
qed

lemma updates_closed_form:
  assumes "last_arm_pulled s = Some i" and "i < length (arms s)"
    and "arms s ! i = (m, sd)" and "0 < sd" and "0 < observation_noise s"
  shows "\<exists>s'. updates n r s = Inr s' \<and>
           arms s' ! i =
             (((observation_noise s)\<^sup>2 * m + real n * sd\<^sup>2 * r) / ((observation_noise s)\<^sup>2 + real n * sd\<^sup>2),
              sqrt (sd\<^sup>2 * (observation_noise s)\<^sup>2 / ((observation_noise s)\<^sup>2 + real n * sd\<^sup>2)))"
  using assms
proof (induction n arbitrary: s m sd)
  case 0
  then show ?case by simp
next
  case (Suc n)
  define ob where "ob = (observation_noise s)\<^sup>2"
  define a where "a = sd\<^sup>2"
  define m1 where "m1 = (a * r + ob * m) / (a + ob)"
  define a1 where "a1 = a * ob / (a + ob)"
  have a: "0 < a" and ob: "0 < ob" using Suc.prems(4,5) by (simp_all add: a_def ob_def)
  have nz: "sd \<noteq> 0 \<or> observation_noise s \<noteq> 0" using Suc.prems(4) by simp
  define s1 where "s1 = s\<lparr>arms := (arms s)[i := (m1, sqrt a1)]\<rparr>"
  have u: "update s r = Inr s1"
    using update_Some[OF Suc.prems(1-3) nz, of r]
    by (simp add: s1_def m1_def a1_def a_def ob_def)
  have a1pos: "0 < a1" using a ob by (simp add: a1_def)
  have p: "last_arm_pulled s1 = Some i" "i < length (arms s1)" "arms s1 ! i = (m1, sqrt a1)"
    "0 < sqrt a1" "0 < observation_noise s1"
    using Suc.prems a1pos by (simp_all add: s1_def)
  have sq: "(sqrt a1)\<^sup>2 = a1" using a1pos by simp
  have n1: "(observation_noise s1)\<^sup>2 = ob" by (simp add: s1_def ob_def)
  from Suc.IH[OF p] obtain s' where
    us: "updates n r s1 = Inr s'" and
    v: "arms s' ! i = ((ob * m1 + real n * a1 * r) / (ob + real n * a1),
              sqrt (a1 * ob / (ob + real n * a1)))"
    unfolding sq n1 by blast
  have "updates (Suc n) r s = Inr s'" using u us by simp
  moreover have "arms s' ! i = ((ob * m + real (Suc n) * a * r) / (ob + real (Suc n) * a),
              sqrt (a * ob / (ob + real (Suc n) * a)))"
    unfolding v using post_closed_form_step[OF a ob a1_def m1_def, of n] by simp
  ultimately show ?case unfolding a_def ob_def by blast
qed

lemma closed_form_limits:
  fixes a ob m r eps :: real
  assumes a: "0 < a" and ob: "0 < ob" and eps: "0 < eps"
  shows "\<exists>n. \<forall>k\<ge>n. \<bar>(ob * m + real k * a * r) / (ob + real k * a) - r\<bar> < eps \<and>
                   sqrt (a * ob / (ob + real k * a)) < eps"
proof -
  obtain n :: nat where n: "max (ob * \<bar>m - r\<bar> / (eps * a)) (ob / eps\<^sup>2) < real n"
    using reals_Archimedean2 by blast
  have "\<bar>(ob * m + real k * a * r) / (ob + real k * a) - r\<bar> < eps \<and>
        sqrt (a * ob / (ob + real k * a)) < eps" if k: "n \<le> k" for k
  proof -
    have nk: "real n \<le> real k" using k by simp
    have ka: "0 \<le> real k * a" using a by (intro mult_nonneg_nonneg) simp_all
    with ob have D: "0 < ob + real k * a" by (rule add_pos_nonneg)
    have ea: "0 < eps * a" using eps a by simp
    have "ob * \<bar>m - r\<bar> / (eps * a) < real k" using n nk by simp
    then have "ob * \<bar>m - r\<bar> < real k * (eps * a)"
      using ea by (simp add: pos_divide_less_eq)
    also have "\<dots> = eps * (real k * a)" by simp
    also have "\<dots> < eps * (ob + real k * a)"
      using eps ob by (intro mult_strict_left_mono) simp_all
    finally have b1: "ob * \<bar>m - r\<bar> < eps * (ob + real k * a)" .
    have "(ob * m + real k * a * r) / (ob + real k * a) - r =
            (ob * m + real k * a * r - r * (ob + real k * a)) / (ob + real k * a)"
      using D by (simp add: diff_divide_distrib)
    also have "ob * m + real k * a * r - r * (ob + real k * a) = ob * (m - r)"
      by (simp add: algebra_simps)
    finally have "\<bar>(ob * m + real k * a * r) / (ob + real k * a) - r\<bar> =
                    ob * \<bar>m - r\<bar> / (ob + real k * a)"
      using D ob by (simp add: abs_mult)
    also have "\<dots> < eps"
      using D b1 by (simp add: pos_divide_less_eq)
    finally have c1: "\<bar>(ob * m + real k * a * r) / (ob + real k * a) - r\<bar> < eps" .
    have e2: "0 < eps\<^sup>2" using eps by simp
    have "ob / eps\<^sup>2 < real k" using n nk by simp
    then have "ob < real k * eps\<^sup>2"
      using e2 by (simp add: pos_divide_less_eq)
    then have "a * ob < a * (real k * eps\<^sup>2)"
      using a by (intro mult_strict_left_mono) simp_all
    also have "\<dots> = eps\<^sup>2 * (real k * a)" by simp
    also have "\<dots> \<le> eps\<^sup>2 * (ob + real k * a)"
      using e2 ob by (intro mult_left_mono) simp_all
    finally have "a * ob / (ob + real k * a) < eps\<^sup>2"
      using D by (simp add: pos_divide_less_eq)
    then have c2: "sqrt (a * ob / (ob + real k * a)) < eps"
      using eps by (intro real_less_lsqrt) simp_all
    from c1 c2 show ?thesis ..
  qed
  then show ?thesis by blast
qed

lemma updates_twice:
  "updates 2 5 (script_bandit\<lparr>last_arm_pulled := Some 0\<rparr>) =
     Inr \<lparr>arms = [(18007 / 3602, sqrt (9 / 1801)), (3.5, 3), (3.5, 3)],
          observation_noise = 0.1, last_arm_pulled = Some 0\<rparr>"
  by (simp add: numeral_2_eq_2 update_def script_bandit_def Let_def not_less)

lemma exact_updates_converge:
  assumes "last_arm_pulled s = Some i" and "i < length (arms s)"
    and "0 < snd (arms s ! i)" and "0 < observation_noise s" and "0 < eps"
  shows "\<exists>n. \<forall>k\<ge>n. \<exists>s'. updates k r s = Inr s' \<and>
           \<bar>fst (arms s' ! i) - r\<bar> < eps \<and> \<bar>snd (arms s' ! i) - 0\<bar> < eps"
proof -
  obtain m sd where arm: "arms s ! i = (m, sd)" by (cases "arms s ! i")
  with assms(3) have sd: "0 < sd" by simp
  have a: "0 < sd\<^sup>2" and ob: "0 < (observation_noise s)\<^sup>2"
    using sd assms(4) by simp_all
  from closed_form_limits[OF a ob assms(5), of m r] obtain n where
    n: "\<forall>k\<ge>n. \<bar>((observation_noise s)\<^sup>2 * m + real k * sd\<^sup>2 * r) /
                     ((observation_noise s)\<^sup>2 + real k * sd\<^sup>2) - r\<bar> < eps \<and>
                   sqrt (sd\<^sup>2 * (observation_noise s)\<^sup>2 /
                     ((observation_noise s)\<^sup>2 + real k * sd\<^sup>2)) < eps"
    by blast
  have "\<exists>s'. updates k r s = Inr s' \<and>
           \<bar>fst (arms s' ! i) - r\<bar> < eps \<and> \<bar>snd (arms s' ! i) - 0\<bar> < eps" if k: "n \<le> k" for k
  proof -
    from updates_closed_form[OF assms(1,2) arm sd assms(4), of k r] obtain s' where
      u: "updates k r s = Inr s'" and
      v: "arms s' ! i =
             (((observation_noise s)\<^sup>2 * m + real k * sd\<^sup>2 * r) / ((observation_noise s)\<^sup>2 + real k * sd\<^sup>2),
              sqrt (sd\<^sup>2 * (observation_noise s)\<^sup>2 / ((observation_noise s)\<^sup>2 + real k * sd\<^sup>2)))"
      by blast
    from n k have "\<bar>fst (arms s' ! i) - r\<bar> < eps" and "snd (arms s' ! i) < eps"
      unfolding v by simp_all
    moreover have "0 \<le> snd (arms s' ! i)" unfolding v by simp
    ultimately show ?thesis using u by auto
  qed
  then show ?thesis by blast
qed

end
